theory Spec2Isabelle
  imports Main "HOL-Library.Word" "HOL-Library.List_Lexorder" "HOL-Library.Multiset"
begin

section \<open>Common types\<close>

type_synonym byte = "8 word"
type_synonym bytes = "byte list"

text \<open>The error values of package \<open>errors\<close> / \<open>common\<close> that the modelled code returns.
  \<open>OtherError\<close> stands for any further error value an implementation of
  \<open>encoding.BinaryMarshaler\<close> may return.\<close>

datatype error =
    NotFound
  | Collision
  | NilInternalDataStructure
  | InvalidDataFormat
  | NilParameter
  | MaxCountReached
  | ErrEmptySequence
  | ErrChannelTransferringFailed
  | ErrNilParameter
  | OtherError nat

text \<open>A \<open>time.Time\<close> instant, as the number of nanoseconds since Go's zero \<open>Time\<close>
  (January 1, year 1, 00:00:00 UTC); the zero \<open>Time\<close> is 0.\<close>

type_synonym time = int

section \<open>Package pool (core/chain/pool/pool.go)\<close>

text \<open>The constants of package \<open>settings\<close> used by the pool. The package is not part of
  the sources, so the constants are parameters of the model.\<close>

record settings =
  ObserversMaxCount :: int
  ObserversConsensusCount :: int
  KObserversMaxCount :: nat

type_synonym SHA256Container = bytes

record 'i Record =
  Instance :: 'i
  Approves :: "bool list"
  LastSyncAttempt :: time

text \<open>The loop of \<open>IsMajorityApprovesCollected\<close> over the remaining votes, with the two
  counters \<open>positiveVotesPresent\<close> and \<open>negativeVotesPresent\<close>.\<close>

fun approves_loop :: "settings \<Rightarrow> bool list \<Rightarrow> int \<Rightarrow> int \<Rightarrow> bool" where
  "approves_loop S [] positiveVotesPresent negativeVotesPresent = False"
| "approves_loop S (vote # votes) positiveVotesPresent negativeVotesPresent =
     (if vote then
        (if positiveVotesPresent + 1 \<ge> ObserversConsensusCount S then True
         else approves_loop S votes (positiveVotesPresent + 1) negativeVotesPresent)
      else
        (if negativeVotesPresent + 1 \<ge> ObserversMaxCount S - ObserversConsensusCount S then False
         else approves_loop S votes positiveVotesPresent (negativeVotesPresent + 1)))"

definition IsMajorityApprovesCollected :: "settings \<Rightarrow> 'i Record \<Rightarrow> bool" where
  "IsMajorityApprovesCollected S r = approves_loop S (Approves r) 0 0"

record 'i Pool =
  index :: "SHA256Container \<rightharpoonup> 'i Record"

definition NewPool :: "'i Pool" where
  "NewPool = \<lparr>index = Map.empty\<rparr>"

definition ByHash :: "'i Pool \<Rightarrow> SHA256Container \<Rightarrow> 'i Record option \<times> error option" where
  "ByHash pool hash =
     (case index pool hash of
        None \<Rightarrow> (None, Some NotFound)
      | Some record \<Rightarrow> (Some record, None))"

text \<open>\<open>Pool.Add\<close>. The instance is a value of an interface type: its method
  \<open>MarshalBinary\<close> is the parameter \<open>marshal\<close>. \<open>hash.NewSHA256Container\<close> (SHA-256 of the
  standard library) is the parameter \<open>sha\<close>. The result is the pair of named results
  \<open>(record, err)\<close> and the pool after the call. A fresh \<open>Record\<close> has Go's zero values
  in \<open>Approves\<close> and \<open>LastSyncAttempt\<close>.\<close>

definition Add ::
  "settings \<Rightarrow> (bytes \<Rightarrow> SHA256Container) \<Rightarrow> ('i \<Rightarrow> error + bytes) \<Rightarrow>
   'i Pool \<Rightarrow> 'i \<Rightarrow> ('i Record option \<times> error option) \<times> 'i Pool" where
  "Add S sha marshal pool instance =
     (case marshal instance of
        Inl err \<Rightarrow> ((None, Some err), pool)
      | Inr data \<Rightarrow>
          (let key = sha data in
           if snd (ByHash pool key) \<noteq> Some NotFound
           then ((None, Some Collision), pool)
           else
             (let record = \<lparr>Instance = instance,
                            Approves = replicate (KObserversMaxCount S) False,
                            LastSyncAttempt = 0\<rparr>
              in ((Some record, None), pool\<lparr>index := (index pool)(key \<mapsto> record)\<rparr>))))"

definition Remove :: "'i Pool \<Rightarrow> SHA256Container \<Rightarrow> 'i Pool" where
  "Remove pool hash = pool\<lparr>index := (index pool)(hash := None)\<rparr>"

text \<open>A sequence of \<open>Add\<close> and \<open>Remove\<close> calls applied to a pool.\<close>

datatype 'i pool_op = OpAdd 'i | OpRemove SHA256Container

fun run_pool ::
  "settings \<Rightarrow> (bytes \<Rightarrow> SHA256Container) \<Rightarrow> ('i \<Rightarrow> error + bytes) \<Rightarrow>
   'i Pool \<Rightarrow> 'i pool_op list \<Rightarrow> 'i Pool" where
  "run_pool S sha marshal pool [] = pool"
| "run_pool S sha marshal pool (OpAdd i # ops) =
     run_pool S sha marshal (snd (Add S sha marshal pool i)) ops"
| "run_pool S sha marshal pool (OpRemove h # ops) =
     run_pool S sha marshal (Remove pool h) ops"

section \<open>Package timer\<close>

text \<open>The constants of package \<open>common\<close> used by the timer; the package is not part of the
  sources, so they are parameters. \<open>ObserversMaxCount\<close> is an untyped constant compared
  with \<open>uint16\<close> values; \<open>AverageBlockGenerationTimeRange\<close> is a \<open>time.Duration\<close>, a signed
  64-bit count of nanoseconds.\<close>

type_synonym Duration = "64 word"

record common =
  common_ObserversMaxCount :: "16 word"
  AverageBlockGenerationTimeRange :: Duration

definition kSynchronisationTimoutSeconds :: int where
  "kSynchronisationTimoutSeconds = 20"

definition kInitialTimeFrameIndex :: "16 word" where
  "kInitialTimeFrameIndex = 65535"

text \<open>\<open>Time.Sub\<close> of the standard library: the difference of two instants as a
  \<open>Duration\<close>, saturating at the largest and the smallest \<open>int64\<close>. \<open>Time.Second\<close>: the
  second within the minute (UTC).\<close>

definition Sub :: "time \<Rightarrow> time \<Rightarrow> Duration" where
  "Sub t u =
     (let d = t - u in
      if d > 9223372036854775807 then word_of_int 9223372036854775807
      else if d < - 9223372036854775808 then word_of_int (- 9223372036854775808)
      else word_of_int d)"

definition Second :: "time \<Rightarrow> int" where
  "Second t = (t div 1000000000) mod 60"

record 'c EventTimeFrameEnd =
  Index :: "16 word"
  Conf :: "'c option"

text \<open>Modelled from the spec: \<open>responses.ResponseTimeFrame\<close> is not part of the sources. It
  carries the frame index, the nanoseconds left to the next frame, and the instant at
  which the transport layer received it; \<open>NewResponseTimeFrame\<close> builds one for a request,
  with the zero \<open>Time\<close> as receipt instant.\<close>

record 'q ResponseTimeFrame =
  Request :: 'q
  FrameIndex :: "16 word"
  NanosecondsLeft :: "64 word"
  Received :: time

definition NewResponseTimeFrame :: "'q \<Rightarrow> 16 word \<Rightarrow> 64 word \<Rightarrow> 'q ResponseTimeFrame" where
  "NewResponseTimeFrame request frameIndex nanosecondsLeft =
     \<lparr>Request = request, FrameIndex = frameIndex, NanosecondsLeft = nanosecondsLeft,
      Received = 0\<rparr>"

text \<open>The timer. A buffered channel is the list of the values it holds, oldest first.
  \<open>OutgoingEventsTimeFrameEnd\<close> is unbuffered: the field lists the events a receiver has
  taken. The fields that the functions below do not read (\<open>settings\<close>, \<open>confReporter\<close>,
  \<open>IncomingRequestsTimeFrames\<close>, \<open>internalEventsBus\<close>) are left out.\<close>

record ('q, 'c) Timer =
  OutgoingEventsTimeFrameEnd :: "'c EventTimeFrameEnd list"
  OutgoingRequestsTimeFrames :: "'q list"
  OutgoingResponsesTimeFrame :: "'q ResponseTimeFrame list"
  IncomingResponsesTimeFrame :: "'q ResponseTimeFrame list"
  nextFrameTimestamp :: time
  synchronisationDeadlineTimestamp :: time
  isTickerRunning :: bool
  frame :: "'c EventTimeFrameEnd"

definition New :: "'c option \<Rightarrow> ('q, 'c) Timer" where
  "New initialConfiguration =
     \<lparr>OutgoingEventsTimeFrameEnd = [],
      OutgoingRequestsTimeFrames = [],
      OutgoingResponsesTimeFrame = [],
      IncomingResponsesTimeFrame = [],
      nextFrameTimestamp = 0,
      synchronisationDeadlineTimestamp = 0,
      isTickerRunning = False,
      frame = \<lparr>Index = kInitialTimeFrameIndex, Conf = initialConfiguration\<rparr>\<rparr>"

datatype internal_event = EventTickerStarted | OtherEvent

definition processInternalEvent ::
  "internal_event \<Rightarrow> ('q, 'c) Timer \<Rightarrow> error option \<times> ('q, 'c) Timer" where
  "processInternalEvent event t =
     (case event of
        EventTickerStarted \<Rightarrow> (None, t\<lparr>isTickerRunning := True\<rparr>)
      | OtherEvent \<Rightarrow> (Some ErrNilParameter, t))"

text \<open>\<open>processTimeFrameRequest\<close>; \<open>now\<close> is the value of \<open>time.Now()\<close>. The channel
  \<open>OutgoingResponsesTimeFrame\<close> has capacity 1, so the non-blocking send succeeds when it
  is empty.\<close>

definition processTimeFrameRequest ::
  "common \<Rightarrow> time \<Rightarrow> ('q, 'c) Timer \<Rightarrow> 'q \<Rightarrow> error option \<times> ('q, 'c) Timer" where
  "processTimeFrameRequest C now t request =
     (if \<not> isTickerRunning t \<and> Second (synchronisationDeadlineTimestamp t) = 0
      then (None, t)
      else
        (let kNextFrameTimeLeft =
               AverageBlockGenerationTimeRange C + Sub (synchronisationDeadlineTimestamp t) now;
             response =
               (if Index (frame t) = kInitialTimeFrameIndex
                then NewResponseTimeFrame request 0 kNextFrameTimeLeft
                else NewResponseTimeFrame request (Index (frame t)) kNextFrameTimeLeft)
         in if length (OutgoingResponsesTimeFrame t) < 1
            then (None, t\<lparr>OutgoingResponsesTimeFrame := OutgoingResponsesTimeFrame t @ [response]\<rparr>)
            else (Some ErrChannelTransferringFailed, t)))"

text \<open>\<open>processTick\<close>; \<open>ready\<close> tells whether a receiver waits on the unbuffered channel
  \<open>OutgoingEventsTimeFrameEnd\<close>, that is whether the non-blocking send delivers the event.\<close>

definition processTick :: "common \<Rightarrow> bool \<Rightarrow> ('q, 'c) Timer \<Rightarrow> ('q, 'c) Timer" where
  "processTick C ready t =
     (let nextFrameNumber = Index (frame t) + 1;
          nextFrameNumber = (if nextFrameNumber = common_ObserversMaxCount C then 0
                             else nextFrameNumber);
          t = t\<lparr>frame := \<lparr>Index = nextFrameNumber, Conf = Conf (frame t)\<rparr>\<rparr>
      in if ready
         then t\<lparr>OutgoingEventsTimeFrameEnd := OutgoingEventsTimeFrameEnd t @ [frame t]\<rparr>
         else t)"

text \<open>A sequence of ticks, one per element of the list, which tells for each tick whether
  a receiver is ready.\<close>

fun ticks :: "common \<Rightarrow> bool list \<Rightarrow> ('q, 'c) Timer \<Rightarrow> ('q, 'c) Timer" where
  "ticks C [] t = t"
| "ticks C (ready # readys) t = ticks C readys (processTick C ready t)"

definition processMajorityAndCalculateAverageNextFrameTTL :: "64 word list \<Rightarrow> 64 word" where
  "processMajorityAndCalculateAverageNextFrameTTL majorityOfTimeOffsets =
     (if length majorityOfTimeOffsets = 0 then 0
      else fold (\<lambda>ttl total. total + ttl) majorityOfTimeOffsets 0
             div word_of_nat (length majorityOfTimeOffsets))"

text \<open>The loop of \<open>processMajorityOfFrameResponses\<close> over the votes read from the channel.
  Its state is the map \<open>rates\<close>, \<open>topFrameIndex\<close> and \<open>topFrameVotesCount\<close>; \<open>majority_step\<close> is
  the body of the loop.\<close>

type_synonym rates = "16 word \<rightharpoonup> 64 word list"

definition correctedNanosecondsLeft :: "common \<Rightarrow> time \<Rightarrow> 'q ResponseTimeFrame \<Rightarrow> 64 word" where
  "correctedNanosecondsLeft C now vote =
     (let timeOffset = Sub now (Received vote)
      in AverageBlockGenerationTimeRange C + NanosecondsLeft vote - timeOffset)"

definition majority_step ::
  "common \<Rightarrow> time \<Rightarrow> rates \<times> 16 word \<times> int \<Rightarrow> 'q ResponseTimeFrame \<Rightarrow>
   rates \<times> 16 word \<times> int" where
  "majority_step C now st vote =
     (case st of (rates, topFrameIndex, topFrameVotesCount) \<Rightarrow>
        (let frameIndex = FrameIndex vote;
             corrected = correctedNanosecondsLeft C now vote;
             (rates, currentTTLsCount) =
                (case rates frameIndex of
                   Some TTLs \<Rightarrow> (rates(frameIndex \<mapsto> TTLs @ [corrected]),
                                 int (length (TTLs @ [corrected])))
                 | None \<Rightarrow> (rates(frameIndex \<mapsto> [corrected]), 1))
         in if currentTTLsCount > topFrameVotesCount
            then (rates, frameIndex, currentTTLsCount)
            else (rates, topFrameIndex, topFrameVotesCount)))"

fun majority_loop ::
  "common \<Rightarrow> time \<Rightarrow> 'q ResponseTimeFrame list \<Rightarrow> rates \<times> 16 word \<times> int \<Rightarrow>
   rates \<times> 16 word \<times> int" where
  "majority_loop C now [] st = st"
| "majority_loop C now (vote # votes) st = majority_loop C now votes (majority_step C now st vote)"

text \<open>\<open>processMajorityOfFrameResponses\<close>. The result is \<open>None\<close> when the code panics (a nil
  slice pointer read from \<open>rates\<close>); otherwise the four named results
  \<open>(timeOffsetNanoseconds, nextFrameIndex, collectedResponsesCount, err)\<close> and the timer,
  from whose channel the votes have been taken.\<close>

definition processMajorityOfFrameResponses ::
  "common \<Rightarrow> time \<Rightarrow> ('q, 'c) Timer \<Rightarrow>
   ((64 word \<times> 16 word \<times> 16 word \<times> error option) \<times> ('q, 'c) Timer) option" where
  "processMajorityOfFrameResponses C now t =
     (let collectedResponsesCount = (word_of_nat (length (IncomingResponsesTimeFrame t)) :: 16 word)
      in if collectedResponsesCount = 0 then Some ((0, 0, 0, Some ErrEmptySequence), t)
         else
           (let votes = take (unat collectedResponsesCount) (IncomingResponsesTimeFrame t);
                t = t\<lparr>IncomingResponsesTimeFrame :=
                        drop (unat collectedResponsesCount) (IncomingResponsesTimeFrame t)\<rparr>;
                (rates, topFrameIndex, topFrameVotesCount) =
                   majority_loop C now votes (Map.empty, 0, 0)
            in case rates topFrameIndex of
                 None \<Rightarrow> None
               | Some m \<Rightarrow>
                   (let timeOffsetNanoseconds = processMajorityAndCalculateAverageNextFrameTTL m;
                        frameOffset = (if timeOffsetNanoseconds > AverageBlockGenerationTimeRange C
                                       then 1 else 0);
                        nextFrameIndex = topFrameIndex + frameOffset;
                        nextFrameIndex = (if nextFrameIndex \<ge> common_ObserversMaxCount C then 0
                                          else nextFrameIndex)
                    in Some ((timeOffsetNanoseconds, nextFrameIndex, collectedResponsesCount, None),
                             t))))"






text \<open>\<open>syncWithOtherObservers\<close>, in its two phases. The first sets the deadline and sends
  the request; then the goroutine waits in \<open>collectResponses\<close> while responses arrive in
  \<open>IncomingResponsesTimeFrame\<close>. The second processes the responses and sets the frame and
  the next tick (\<open>now'\<close> is the instant read in \<open>setNextTick\<close>); the event
  \<open>EventTickerStarted\<close> it sends is handled by \<open>processInternalEvent\<close>.\<close>

definition syncWithOtherObservers_start :: "time \<Rightarrow> 'q \<Rightarrow> ('q, 'c) Timer \<Rightarrow> ('q, 'c) Timer" where
  "syncWithOtherObservers_start now request t =
     t\<lparr>synchronisationDeadlineTimestamp := now + 1000000000 * kSynchronisationTimoutSeconds,
       OutgoingRequestsTimeFrames := OutgoingRequestsTimeFrames t @ [request]\<rparr>"

definition syncWithOtherObservers_finish ::
  "common \<Rightarrow> time \<Rightarrow> time \<Rightarrow> ('q, 'c) Timer \<Rightarrow> ('q, 'c) Timer option" where
  "syncWithOtherObservers_finish C now now' t =
     (case processMajorityOfFrameResponses C now t of
        None \<Rightarrow> None
      | Some ((nextFrameOffset, nextFrameIndex, responsesCollected, err), t) \<Rightarrow>
          (let offset = (if err = Some ErrEmptySequence then AverageBlockGenerationTimeRange C
                         else nextFrameOffset);
               t = t\<lparr>frame := \<lparr>Index = nextFrameIndex, Conf = None\<rparr>,
                      nextFrameTimestamp := now' + sint offset\<rparr>
           in Some (snd (processInternalEvent EventTickerStarted t))))"

section \<open>Package geo: claims\<close>

text \<open>The outcome of a call that may panic: a panic, an error returned, or a value.\<close>

datatype 'a outcome = Panic | Failed error | Returned 'a

text \<open>The slice expression \<open>data[lo:hi]\<close>: a run-time panic unless
  \<open>lo \<le> hi \<le> cap(data)\<close>. The capacity of a slice is taken to be its length.\<close>

definition slice :: "bytes \<Rightarrow> nat \<Rightarrow> nat \<Rightarrow> bytes option" where
  "slice data lo hi =
     (if lo \<le> hi \<and> hi \<le> length data then Some (take (hi - lo) (drop lo data)) else None)"

text \<open>Modelled from the spec: package \<open>utils\<close> is not part of the sources. The codec fixes
  little-endian byte order for 16- and 32-bit unsigned integers; the inverses fail with
  \<open>InvalidDataFormat\<close> on short input; \<open>ChainByteSlices\<close> concatenates byte runs.\<close>

definition MarshalUint16 :: "16 word \<Rightarrow> bytes" where
  "MarshalUint16 v = [word_of_nat (unat v mod 256), word_of_nat (unat v div 256)]"

definition UnmarshalUint16 :: "bytes \<Rightarrow> error + 16 word" where
  "UnmarshalUint16 data =
     (if length data < 2 then Inl InvalidDataFormat
      else Inr (word_of_nat (unat (data ! 0) + 256 * unat (data ! 1))))"

definition MarshalUint32 :: "32 word \<Rightarrow> bytes" where
  "MarshalUint32 v =
     [word_of_nat (unat v mod 256), word_of_nat (unat v div 256 mod 256),
      word_of_nat (unat v div 65536 mod 256), word_of_nat (unat v div 16777216)]"

definition UnmarshalUint32 :: "bytes \<Rightarrow> error + 32 word" where
  "UnmarshalUint32 data =
     (if length data < 4 then Inl InvalidDataFormat
      else Inr (word_of_nat (unat (data ! 0) + 256 * unat (data ! 1) + 65536 * unat (data ! 2)
                             + 16777216 * unat (data ! 3))))"

definition ChainByteSlices :: "bytes list \<Rightarrow> bytes" where
  "ChainByteSlices slices = concat slices"

definition Uint16ByteSize :: nat where
  "Uint16ByteSize = 2"

definition Uint32ByteSize :: nat where
  "Uint32ByteSize = 4"

text \<open>The types \<open>transactions.TxID\<close> and \<open>ClaimMembers\<close> are not part of the sources: their
  binary codecs and sizes are parameters of the model.\<close>

record ('t, 'm) geo_env =
  TxID_MarshalBinary :: "'t \<Rightarrow> error + bytes"
  TxID_UnmarshalBinary :: "bytes \<Rightarrow> error + 't"
  TxIDBinarySize :: nat
  ClaimMembers_MarshalBinary :: "'m \<Rightarrow> error + bytes"
  ClaimMembers_UnmarshalBinary :: "bytes \<Rightarrow> error + 'm"
  ClaimMembersMinBinarySize :: nat

definition ClaimMinBinarySize :: "('t, 'm) geo_env \<Rightarrow> nat" where
  "ClaimMinBinarySize E = TxIDBinarySize E + ClaimMembersMinBinarySize E"

text \<open>A claim; a nil pointer in a field is \<open>None\<close>.\<close>

record ('t, 'm) Claim =
  TxUUID :: "'t option"
  Members :: "'m option"

definition Claim_MarshalBinary :: "('t, 'm) geo_env \<Rightarrow> ('t, 'm) Claim \<Rightarrow> error + bytes" where
  "Claim_MarshalBinary E claim =
     (case (TxUUID claim, Members claim) of
        (Some txUUID, Some members) \<Rightarrow>
          (case TxID_MarshalBinary E txUUID of
             Inl err \<Rightarrow> Inl err
           | Inr txIDBinary \<Rightarrow>
               (case ClaimMembers_MarshalBinary E members of
                  Inl err \<Rightarrow> Inl err
                | Inr membersBinary \<Rightarrow> Inr (ChainByteSlices [txIDBinary, membersBinary])))
      | _ \<Rightarrow> Inl NilInternalDataStructure)"

definition Claim_UnmarshalBinary :: "('t, 'm) geo_env \<Rightarrow> bytes \<Rightarrow> error + ('t, 'm) Claim" where
  "Claim_UnmarshalBinary E data =
     (if length data < ClaimMinBinarySize E then Inl InvalidDataFormat
      else
        (case TxID_UnmarshalBinary E (take (TxIDBinarySize E) data) of
           Inl err \<Rightarrow> Inl err
         | Inr txUUID \<Rightarrow>
             (case ClaimMembers_UnmarshalBinary E (drop (TxIDBinarySize E) data) of
                Inl err \<Rightarrow> Inl err
              | Inr members \<Rightarrow> Inr \<lparr>TxUUID = Some txUUID, Members = Some members\<rparr>)))"

definition ClaimsMaxCount :: nat where
  "ClaimsMaxCount = 1024 * 16"

text \<open>A batch of claims. The elements of \<open>At\<close> are pointers in the source; they are taken
  to be non-nil.\<close>

record ('t, 'm) Claims =
  At :: "('t, 'm) Claim list"

definition Count :: "('t, 'm) Claims \<Rightarrow> 16 word" where
  "Count c = word_of_nat (length (At c))"

definition Claims_Add ::
  "('t, 'm) Claims \<Rightarrow> ('t, 'm) Claim option \<Rightarrow> error option \<times> ('t, 'm) Claims" where
  "Claims_Add c claim =
     (case claim of
        None \<Rightarrow> (Some NilParameter, c)
      | Some cl \<Rightarrow>
          (if unat (Count c) < ClaimsMaxCount then (None, c\<lparr>At := At c @ [cl]\<rparr>)
           else (Some MaxCountReached, c)))"

text \<open>The loop of \<open>Claims.MarshalBinary\<close>: \<open>sizes\<close> are the size fields appended to \<open>data\<close>
  so far, \<open>claims\<close> the binaries collected.\<close>

fun marshal_claims ::
  "('t, 'm) geo_env \<Rightarrow> ('t, 'm) Claim list \<Rightarrow> bytes \<Rightarrow> bytes list \<Rightarrow> error + (bytes \<times> bytes list)" where
  "marshal_claims E [] sizes claims = Inr (sizes, claims)"
| "marshal_claims E (claim # rest) sizes claims =
     (case Claim_MarshalBinary E claim of
        Inl err \<Rightarrow> Inl err
      | Inr claimBinary \<Rightarrow>
          (if length claimBinary = 0 then marshal_claims E rest sizes claims
           else marshal_claims E rest
                  (sizes @ MarshalUint32 (word_of_nat (length claimBinary)))
                  (claims @ [claimBinary])))"

definition Claims_MarshalBinary :: "('t, 'm) geo_env \<Rightarrow> ('t, 'm) Claims \<Rightarrow> error + bytes" where
  "Claims_MarshalBinary E c =
     (case marshal_claims E (At c) [] [] of
        Inl err \<Rightarrow> Inl err
      | Inr (sizes, claims) \<Rightarrow> Inr (MarshalUint16 (Count c) @ sizes @ ChainByteSlices claims))"

text \<open>The second loop of \<open>Claims.UnmarshalBinary\<close> reads \<open>count\<close> (here \<open>count'\<close>) size fields from
  \<open>offset\<close> on (a \<open>uint32\<close>); an error assigned for a size of 0 goes to the \<open>err\<close> declared
  in the loop body and is lost. The third loop unmarshals one claim per size.\<close>

fun read_sizes :: "bytes \<Rightarrow> nat \<Rightarrow> 32 word \<Rightarrow> 32 word list \<Rightarrow> (32 word list \<times> 32 word) outcome" where
  "read_sizes data 0 offset claimsSizes = Returned (claimsSizes, offset)"
| "read_sizes data (Suc n) offset claimsSizes =
     (case slice data (unat offset) (unat (offset + word_of_nat Uint32ByteSize)) of
        None \<Rightarrow> Panic
      | Some field \<Rightarrow>
          (case UnmarshalUint32 field of
             Inl err \<Rightarrow> Failed err
           | Inr claimSize \<Rightarrow>
               read_sizes data n (offset + word_of_nat Uint32ByteSize) (claimsSizes @ [claimSize])))"

fun read_claims ::
  "('t, 'm) geo_env \<Rightarrow> bytes \<Rightarrow> 32 word list \<Rightarrow> 32 word \<Rightarrow> ('t, 'm) Claim list \<Rightarrow>
   ('t, 'm) Claim list outcome" where
  "read_claims E data [] offset claims = Returned claims"
| "read_claims E data (claimSize # claimsSizes) offset claims =
     (case slice data (unat offset) (unat (offset + claimSize)) of
        None \<Rightarrow> Panic
      | Some body \<Rightarrow>
          (case Claim_UnmarshalBinary E body of
             Inl err \<Rightarrow> Failed err
           | Inr claim \<Rightarrow> read_claims E data claimsSizes (offset + claimSize) (claims @ [claim])))"

text \<open>\<open>Claims.UnmarshalBinary\<close>; the value returned is the receiver after a call that
  returns nil. What the receiver holds after an error is not modelled.\<close>

definition Claims_UnmarshalBinary :: "('t, 'm) geo_env \<Rightarrow> bytes \<Rightarrow> ('t, 'm) Claims outcome" where
  "Claims_UnmarshalBinary E data =
     (case slice data 0 Uint16ByteSize of
        None \<Rightarrow> Panic
      | Some field \<Rightarrow>
          (case UnmarshalUint16 field of
             Inl err \<Rightarrow> Failed err
           | Inr count' \<Rightarrow>
               (if count' = 0 then Returned \<lparr>At = []\<rparr>
                else
                  (case read_sizes data (unat count') (word_of_nat Uint16ByteSize) [] of
                     Panic \<Rightarrow> Panic
                   | Failed err \<Rightarrow> Failed err
                   | Returned (claimsSizes, offset) \<Rightarrow>
                       (case read_claims E data claimsSizes offset [] of
                          Panic \<Rightarrow> Panic
                        | Failed err \<Rightarrow> Failed err
                        | Returned claims \<Rightarrow> Returned \<lparr>At = claims\<rparr>)))))"

text \<open>\<open>bytes.Compare\<close> of the standard library: the lexicographic comparison of two byte
  strings, with result -1, 0 or 1.\<close>

fun bytes_Compare :: "bytes \<Rightarrow> bytes \<Rightarrow> int" where
  "bytes_Compare [] [] = 0"
| "bytes_Compare [] (y # ys) = - 1"
| "bytes_Compare (x # xs) [] = 1"
| "bytes_Compare (x # xs) (y # ys) =
     (if x < y then - 1 else if y < x then 1 else bytes_Compare xs ys)"

text \<open>The comparison function that \<open>Claims.Sort\<close> passes to \<open>sort.Slice\<close>; \<open>Inl err\<close> is
  \<open>panic(err)\<close>.\<close>

definition sort_less ::
  "('t, 'm) geo_env \<Rightarrow> ('t, 'm) Claim \<Rightarrow> ('t, 'm) Claim \<Rightarrow> error + bool" where
  "sort_less E a b =
     (case Claim_MarshalBinary E a of
        Inl err \<Rightarrow> Inl err
      | Inr aBinaryData \<Rightarrow>
          (case Claim_MarshalBinary E b of
             Inl err \<Rightarrow> Inl err
           | Inr bBinaryData \<Rightarrow> Inr (bytes_Compare aBinaryData bBinaryData = - 1)))"

text \<open>\<open>sort.Slice\<close> of the standard library, modelled as the insertion sort it runs on
  short slices: element \<open>i\<close> moves left while it is less than its left neighbour. The
  sorted prefix is kept in reverse (the left neighbour first). A panic of the comparison
  function ends the sort.\<close>

fun insert_left ::
  "('a \<Rightarrow> 'a \<Rightarrow> error + bool) \<Rightarrow> 'a \<Rightarrow> 'a list \<Rightarrow> error + 'a list" where
  "insert_left less_fn x [] = Inr [x]"
| "insert_left less_fn x (y # ys) =
     (case less_fn x y of
        Inl err \<Rightarrow> Inl err
      | Inr True \<Rightarrow> (case insert_left less_fn x ys of Inl err \<Rightarrow> Inl err | Inr r \<Rightarrow> Inr (y # r))
      | Inr False \<Rightarrow> Inr (x # y # ys))"

fun sort_Slice ::
  "('a \<Rightarrow> 'a \<Rightarrow> error + bool) \<Rightarrow> 'a list \<Rightarrow> 'a list \<Rightarrow> error + 'a list" where
  "sort_Slice less_fn prefix [] = Inr (rev prefix)"
| "sort_Slice less_fn prefix (x # rest) =
     (case insert_left less_fn x prefix of
        Inl err \<Rightarrow> Inl err
      | Inr prefix' \<Rightarrow> sort_Slice less_fn prefix' rest)"

text \<open>\<open>Claims.Sort\<close>: the panic of the comparison function is recovered and returned as
  the error. What \<open>At\<close> holds after an error is not modelled.\<close>

definition Claims_Sort :: "('t, 'm) geo_env \<Rightarrow> ('t, 'm) Claims \<Rightarrow> error + ('t, 'm) Claims" where
  "Claims_Sort E c =
     (case sort_Slice (sort_less E) [] (At c) of
        Inl err \<Rightarrow> Inl err
      | Inr sorted_claims \<Rightarrow> Inr (c\<lparr>At := sorted_claims\<rparr>))"

text \<open>The assumption on the codecs of \<open>TxID\<close> and \<open>ClaimMembers\<close>, for the fields of one
  claim: if the \<open>TxID\<close> of the claim marshals, the result has \<open>TxIDBinarySize\<close> bytes and
  unmarshals to the same \<open>TxID\<close>; if the members of the claim marshal, the result has at
  least \<open>ClaimMembersMinBinarySize\<close> bytes and unmarshals to the same members.\<close>

definition fields_roundtrip :: "('t, 'm) geo_env \<Rightarrow> ('t, 'm) Claim \<Rightarrow> bool" where
  "fields_roundtrip E claim \<longleftrightarrow>
     (\<forall>tx b. TxUUID claim = Some tx \<and> TxID_MarshalBinary E tx = Inr b \<longrightarrow>
        length b = TxIDBinarySize E \<and> TxID_UnmarshalBinary E b = Inr tx) \<and>
     (\<forall>m b. Members claim = Some m \<and> ClaimMembers_MarshalBinary E m = Inr b \<longrightarrow>
        ClaimMembersMinBinarySize E \<le> length b \<and> ClaimMembers_UnmarshalBinary E b = Inr m)"

text \<open>An instance of the parameters, used to run the model on concrete claims: a
  transaction identifier is its 16 bytes, the members are a non-empty byte string.\<close>

definition example_env :: "(bytes, bytes) geo_env" where
  "example_env =
     \<lparr>TxID_MarshalBinary = (\<lambda>tx. if length tx = 16 then Inr tx else Inl InvalidDataFormat),
      TxID_UnmarshalBinary = (\<lambda>b. if length b < 16 then Inl InvalidDataFormat else Inr (take 16 b)),
      TxIDBinarySize = 16,
      ClaimMembers_MarshalBinary = (\<lambda>m. if m = [] then Inl NilInternalDataStructure else Inr m),
      ClaimMembers_UnmarshalBinary = (\<lambda>b. if b = [] then Inl InvalidDataFormat else Inr b),
      ClaimMembersMinBinarySize = 1\<rparr>"

section \<open>Properties of the pool\<close>

lemma approves_loop_negatives_first:
  "0 < n \<Longrightarrow> ObserversMaxCount S - ObserversConsensusCount S \<le> neg + int n \<Longrightarrow>
   approves_loop S (replicate n False @ rest) pos neg = False"
proof (induction n arbitrary: neg)
  case 0
  then show ?case by simp
next
  case (Suc n)
  show ?case
  proof (cases "neg + 1 \<ge> ObserversMaxCount S - ObserversConsensusCount S")
    case True
    then show ?thesis by simp
  next
    case False
    with Suc.prems have "0 < n" by (cases n) auto
    moreover from Suc.prems have "ObserversMaxCount S - ObserversConsensusCount S \<le> (neg + 1) + int n"
      by simp
    ultimately have "approves_loop S (replicate n False @ rest) pos (neg + 1) = False"
      by (rule Suc.IH)
    with False show ?thesis by simp
  qed
qed

text \<open>Claim C1 (fails on the code). A record whose approval vector starts with
  \<open>ObserversMaxCount - ObserversConsensusCount\<close> entries that are \<open>false\<close>, followed by
  \<open>ObserversConsensusCount\<close> approvals (and anything after them), is reported as not
  approved: the scan returns \<open>false\<close> as soon as the negatives reach
  \<open>ObserversMaxCount - ObserversConsensusCount\<close>, although the approvals that follow still
  make up a majority. This holds for all settings with
  \<open>0 \<le> ObserversConsensusCount < ObserversMaxCount\<close>.\<close>

theorem IsMajorityApprovesCollected_rejects_majority:
  assumes "0 \<le> ObserversConsensusCount S"
    and "ObserversConsensusCount S < ObserversMaxCount S"
    and "Approves r =
           replicate (nat (ObserversMaxCount S - ObserversConsensusCount S)) False @
           replicate (nat (ObserversConsensusCount S)) True @ rest"
  shows "int (length (filter (\<lambda>vote. vote = True) (Approves r))) \<ge> ObserversConsensusCount S
         \<and> IsMajorityApprovesCollected S r = False"
proof -
  have "approves_loop S (Approves r) 0 0 = False"
    unfolding assms(3) using assms(2) by (intro approves_loop_negatives_first) auto
  moreover have "int (length (filter (\<lambda>vote. vote = True) (Approves r))) \<ge> ObserversConsensusCount S"
    unfolding assms(3) using assms(1) by simp
  ultimately show ?thesis by (simp add: IsMajorityApprovesCollected_def)
qed

theorem IsMajorityApprovesCollected_rejects_majority_witness:
  "int (length (filter (\<lambda>vote. vote = True) [False, False, True, True, True])) \<ge> 3
   \<and> IsMajorityApprovesCollected
        \<lparr>ObserversMaxCount = 5, ObserversConsensusCount = 3, KObserversMaxCount = 5\<rparr>
        \<lparr>Instance = (), Approves = [False, False, True, True, True], LastSyncAttempt = 0\<rparr> = False"
  using IsMajorityApprovesCollected_rejects_majority
    [of "\<lparr>ObserversMaxCount = 5, ObserversConsensusCount = 3, KObserversMaxCount = 5\<rparr>"
        "\<lparr>Instance = (), Approves = [False, False, True, True, True], LastSyncAttempt = 0\<rparr>"
        "[]"]
  by (simp add: numeral_eq_Suc)

text \<open>Claim C10. Whenever \<open>Add\<close> returns a non-nil error, the returned record is nil and
  the index map is unchanged.\<close>

theorem Add_error_returns_nil_and_keeps_pool:
  assumes "Add S sha marshal pool instance = ((record, Some err), pool')"
  shows "record = None \<and> pool' = pool \<and> index pool' = index pool"
  using assms
  by (auto simp: Add_def Let_def split: sum.splits if_splits)

theorem Add_error_returns_nil_and_keeps_pool_witness:
  "Add \<lparr>ObserversMaxCount = 5, ObserversConsensusCount = 3, KObserversMaxCount = 5\<rparr>
       (\<lambda>d. d) (\<lambda>i::bytes. Inr i)
       \<lparr>index = [[1, 2] \<mapsto> \<lparr>Instance = [1, 2], Approves = [True, True, False, False, False],
                               LastSyncAttempt = 7\<rparr>]\<rparr> [1, 2]
   = ((None, Some Collision),
      \<lparr>index = [[1, 2] \<mapsto> \<lparr>Instance = [1, 2], Approves = [True, True, False, False, False],
                               LastSyncAttempt = 7\<rparr>]\<rparr>)"
proof -
  let ?S = "\<lparr>ObserversMaxCount = 5, ObserversConsensusCount = 3, KObserversMaxCount = 5\<rparr>"
  let ?p = "\<lparr>index = [[1, 2 :: byte] \<mapsto> \<lparr>Instance = [1, 2 :: byte],
              Approves = [True, True, False, False, False], LastSyncAttempt = 7\<rparr>]\<rparr>"
  obtain r e p' where res: "Add ?S (\<lambda>d. d) (\<lambda>i::bytes. Inr i) ?p [1, 2] = ((r, e), p')"
    by (metis prod.exhaust)
  have e: "e = Some Collision"
    using res by (simp add: Add_def ByHash_def Let_def)
  from Add_error_returns_nil_and_keeps_pool [OF res [unfolded e]]
  show ?thesis using res e by simp
qed

text \<open>Claim C2. After a successful \<open>Add\<close> of an instance, an \<open>Add\<close> of an instance with the
  same marshalled bytes returns \<open>Collision\<close> and leaves the pool as it was. This holds also
  when votes and the time of the last synchronisation attempt have been written to the
  stored record in between: the record is kept with its approval vector, not replaced by
  a fresh one.\<close>

theorem Add_twice_is_Collision:
  assumes "marshal i = Inr data"
    and "marshal j = Inr data"
    and "Add S sha marshal pool i = ((Some record, None), pool1)"
    and "pool2 = pool1\<lparr>index := (index pool1)(sha data \<mapsto>
                   record\<lparr>Approves := votes, LastSyncAttempt := ts\<rparr>)\<rparr>"
  shows "Add S sha marshal pool1 j = ((None, Some Collision), pool1)
         \<and> index pool1 (sha data) = Some record
         \<and> Add S sha marshal pool2 j = ((None, Some Collision), pool2)
         \<and> index pool2 (sha data) = Some (record\<lparr>Approves := votes, LastSyncAttempt := ts\<rparr>)"
  using assms
  by (auto simp: Add_def ByHash_def Let_def split: if_splits option.splits)

theorem Add_twice_is_Collision_witness:
  "Add \<lparr>ObserversMaxCount = 5, ObserversConsensusCount = 3, KObserversMaxCount = 5\<rparr>
       (\<lambda>d. rev d) (\<lambda>i::bytes. Inr (0 # i))
       \<lparr>index = [[2, 1, 0] \<mapsto> \<lparr>Instance = [1, 2], Approves = [True, False, True, False, False],
                                  LastSyncAttempt = 7\<rparr>]\<rparr> [1, 2]
   = ((None, Some Collision),
      \<lparr>index = [[2, 1, 0] \<mapsto> \<lparr>Instance = [1, 2], Approves = [True, False, True, False, False],
                                  LastSyncAttempt = 7\<rparr>]\<rparr>)"
proof -
  let ?S = "\<lparr>ObserversMaxCount = 5, ObserversConsensusCount = 3, KObserversMaxCount = 5\<rparr>"
  let ?m = "\<lambda>i::bytes. (Inr (0 # i) :: error + bytes)"
  let ?r = "\<lparr>Instance = [1, 2 :: byte], Approves = replicate 5 False, LastSyncAttempt = 0\<rparr>"
  let ?p1 = "\<lparr>index = [[2, 1, 0 :: byte] \<mapsto> ?r]\<rparr>"
  have first: "Add ?S rev ?m NewPool [1, 2] = ((Some ?r, None), ?p1)"
    by (simp add: Add_def ByHash_def NewPool_def Let_def)
  have m: "?m [1, 2] = Inr [0, 1, 2]"
    by simp
  have p2: "\<lparr>index = [[2, 1, 0 :: byte] \<mapsto> \<lparr>Instance = [1, 2 :: byte],
                Approves = [True, False, True, False, False], LastSyncAttempt = 7\<rparr>]\<rparr>
            = ?p1\<lparr>index := (index ?p1)(rev [0, 1, 2] \<mapsto>
                ?r\<lparr>Approves := [True, False, True, False, False], LastSyncAttempt := 7\<rparr>)\<rparr>"
    by simp
  from Add_twice_is_Collision [OF m m first p2]
  show ?thesis by simp
qed

lemma Add_keeps_hash_keys:
  assumes "\<forall>key record. index pool key = Some record \<longrightarrow>
             (\<exists>data. marshal (Instance record) = Inr data \<and> key = sha data)"
  shows "\<forall>key record. index (snd (Add S sha marshal pool i)) key = Some record \<longrightarrow>
             (\<exists>data. marshal (Instance record) = Inr data \<and> key = sha data)"
  using assms
  by (auto simp: Add_def ByHash_def Let_def split: sum.splits if_splits option.splits)

lemma Remove_keeps_hash_keys:
  assumes "\<forall>key record. index pool key = Some record \<longrightarrow>
             (\<exists>data. marshal (Instance record) = Inr data \<and> key = sha data)"
  shows "\<forall>key record. index (Remove pool h) key = Some record \<longrightarrow>
             (\<exists>data. marshal (Instance record) = Inr data \<and> key = sha data)"
  using assms
  by (auto simp: Remove_def split: if_splits)

lemma run_pool_keeps_hash_keys:
  assumes "\<forall>key record. index pool key = Some record \<longrightarrow>
             (\<exists>data. marshal (Instance record) = Inr data \<and> key = sha data)"
  shows "\<forall>key record. index (run_pool S sha marshal pool ops) key = Some record \<longrightarrow>
             (\<exists>data. marshal (Instance record) = Inr data \<and> key = sha data)"
  using assms
proof (induction ops arbitrary: pool)
  case Nil
  then show ?case by simp
next
  case (Cons op ops)
  show ?case
  proof (cases op)
    case (OpAdd i)
    show ?thesis
      unfolding OpAdd run_pool.simps
      by (rule Cons.IH, rule Add_keeps_hash_keys, rule Cons.prems)
  next
    case (OpRemove h)
    show ?thesis
      unfolding OpRemove run_pool.simps
      by (rule Cons.IH, rule Remove_keeps_hash_keys, rule Cons.prems)
  qed
qed

text \<open>Claim C7. In every pool reached from \<open>NewPool\<close> by a sequence of \<open>Add\<close> and \<open>Remove\<close>
  calls, every key of the index is the hash of the marshalled bytes of the instance of
  the record stored under it.\<close>

theorem reachable_pool_keys_are_hashes:
  assumes "index (run_pool S sha marshal NewPool ops) key = Some record"
  shows "\<exists>data. marshal (Instance record) = Inr data \<and> key = sha data"
proof -
  have "\<forall>key record. index (NewPool :: 'a Pool) key = Some record \<longrightarrow>
          (\<exists>data. marshal (Instance record) = Inr data \<and> key = sha data)"
    by (simp add: NewPool_def)
  from run_pool_keeps_hash_keys [OF this] assms show ?thesis
    by blast
qed

theorem reachable_pool_keys_are_hashes_witness:
  "index (run_pool \<lparr>ObserversMaxCount = 5, ObserversConsensusCount = 3, KObserversMaxCount = 2\<rparr>
            rev (\<lambda>i::bytes. if i = [] then Inl NilInternalDataStructure else Inr (0 # i)) NewPool
            [OpAdd [1], OpAdd [], OpAdd [2, 3], OpAdd [1], OpRemove [1, 0]]) [3, 2, 0]
     = Some \<lparr>Instance = [2, 3], Approves = [False, False], LastSyncAttempt = 0\<rparr>
   \<and> (\<exists>data. (if [2, 3 :: byte] = [] then Inl NilInternalDataStructure else Inr (0 # [2, 3])) = Inr data
          \<and> [3, 2, 0] = rev data)"
proof -
  have h: "index (run_pool \<lparr>ObserversMaxCount = 5, ObserversConsensusCount = 3, KObserversMaxCount = 2\<rparr>
            rev (\<lambda>i::bytes. if i = [] then Inl NilInternalDataStructure else Inr (0 # i)) NewPool
            [OpAdd [1], OpAdd [], OpAdd [2, 3], OpAdd [1], OpRemove [1, 0]]) [3, 2, 0]
     = Some \<lparr>Instance = [2, 3], Approves = [False, False], LastSyncAttempt = 0\<rparr>"
    by (simp add: Add_def ByHash_def NewPool_def Remove_def Let_def numeral_eq_Suc)
  from reachable_pool_keys_are_hashes [OF h] h show ?thesis
    by simp
qed

section \<open>Properties of the timer\<close>

lemma unat_succ_below:
  fixes x M :: "16 word"
  assumes "x < M"
  shows "unat (x + 1) = unat x + 1"
proof -
  have "unat x < unat M" using assms by (simp add: word_less_nat_alt)
  moreover have "unat M < 2 ^ 16" using unsigned_less [of M] by simp
  ultimately have "unat x + 1 < 2 ^ 16" by simp
  then show ?thesis by (simp add: unat_word_ariths)
qed

lemma processTick_frame_index:
  "Index (frame (processTick C ready t)) =
     (if Index (frame t) + 1 = common_ObserversMaxCount C then 0 else Index (frame t) + 1)"
  by (simp add: processTick_def Let_def)

lemma processTick_below:
  assumes "Index (frame t) < common_ObserversMaxCount C"
  shows "unat (Index (frame (processTick C ready t))) =
           (unat (Index (frame t)) + 1) mod unat (common_ObserversMaxCount C)
         \<and> Index (frame (processTick C ready t)) < common_ObserversMaxCount C"
proof -
  let ?x = "Index (frame t)" and ?M = "common_ObserversMaxCount C"
  have s: "unat (?x + 1) = unat ?x + 1" using assms by (rule unat_succ_below)
  have lt: "unat ?x < unat ?M" using assms by (simp add: word_less_nat_alt)
  show ?thesis
  proof (cases "?x + 1 = ?M")
    case True
    then have "unat ?x + 1 = unat ?M" using s by simp
    then show ?thesis using True assms lt by (simp add: processTick_frame_index word_less_nat_alt)
  next
    case False
    then have "unat ?x + 1 \<noteq> unat ?M" using s by (simp add: word_unat_eq_iff)
    then have "unat ?x + 1 < unat ?M" using lt by simp
    then show ?thesis using False s by (simp add: processTick_frame_index word_less_nat_alt)
  qed
qed

lemma processTick_sentinel:
  assumes "Index (frame t) = kInitialTimeFrameIndex"
  shows "Index (frame (processTick C ready t)) = 0"
  using assms by (simp add: processTick_frame_index kInitialTimeFrameIndex_def)

lemma ticks_append: "ticks C (xs @ ys) t = ticks C ys (ticks C xs t)"
  by (induction xs arbitrary: t) auto

lemma ticks_take_Suc:
  "n < length readys \<Longrightarrow>
   ticks C (take (Suc n) readys) t = processTick C (readys ! n) (ticks C (take n readys) t)"
  by (simp add: take_Suc_conv_app_nth ticks_append)


















lemma processMajorityOfFrameResponses_index_below:
  assumes "0 < common_ObserversMaxCount C"
    and "processMajorityOfFrameResponses C now t = Some ((offset, nextFrameIndex, collected, err), t')"
  shows "nextFrameIndex < common_ObserversMaxCount C"
  using assms
  by (auto simp: processMajorityOfFrameResponses_def Let_def not_le
           split: if_splits prod.splits option.splits)

lemma syncWithOtherObservers_finish_index_below:
  assumes "0 < common_ObserversMaxCount C"
    and "syncWithOtherObservers_finish C now now' t = Some t'"
  shows "Index (frame t') < common_ObserversMaxCount C"
  using assms processMajorityOfFrameResponses_index_below [OF assms(1)]
  by (auto simp: syncWithOtherObservers_finish_def Let_def processInternalEvent_def
           split: option.splits prod.splits)

lemma processTick_keeps_range:
  assumes "0 < common_ObserversMaxCount C"
    and "Index (frame t) < common_ObserversMaxCount C \<or> Index (frame t) = kInitialTimeFrameIndex"
  shows "Index (frame (processTick C ready t)) < common_ObserversMaxCount C"
  using assms processTick_below [of t C ready] processTick_sentinel [of t C ready]
  by auto

lemma ticks_keep_range:
  assumes "0 < common_ObserversMaxCount C"
    and "Index (frame t) < common_ObserversMaxCount C \<or> Index (frame t) = kInitialTimeFrameIndex"
  shows "Index (frame (ticks C readys t)) < common_ObserversMaxCount C
         \<or> Index (frame (ticks C readys t)) = kInitialTimeFrameIndex"
  using assms(2)
proof (induction readys arbitrary: t)
  case Nil
  then show ?case by simp
next
  case (Cons r rs)
  have "Index (frame (processTick C r t)) < common_ObserversMaxCount C"
    using assms(1) Cons.prems by (rule processTick_keeps_range)
  then show ?case using Cons.IH by simp
qed

lemma processTick_events:
  "OutgoingEventsTimeFrameEnd (processTick C ready t) =
     OutgoingEventsTimeFrameEnd t @ (if ready then [frame (processTick C ready t)] else [])"
  by (simp add: processTick_def Let_def)

text \<open>Claim C8 (as amended). In every sequence of ticks that starts after synchronisation
  (frame index below \<open>ObserversMaxCount\<close>, see \<open>syncWithOtherObservers_finish_index_below\<close>)
  or from the initial timer (frame index \<open>kInitialTimeFrameIndex\<close>), the frame of tick \<open>n\<close>
  has the index of the frame before it plus one modulo \<open>ObserversMaxCount\<close>, the sentinel
  being followed by 0; the index stays below \<open>ObserversMaxCount\<close>. A tick emits this frame
  on \<open>OutgoingEventsTimeFrameEnd\<close> when a receiver is ready, and emits nothing otherwise.\<close>

theorem ticks_advance_frame_by_one:
  assumes "0 < common_ObserversMaxCount C"
    and "Index (frame t) < common_ObserversMaxCount C \<or> Index (frame t) = kInitialTimeFrameIndex"
    and "n < length readys"
    and "before = ticks C (take n readys) t"
    and "after = ticks C (take (Suc n) readys) t"
  shows "after = processTick C (readys ! n) before
     \<and> (Index (frame before) < common_ObserversMaxCount C \<longrightarrow>
          unat (Index (frame after)) =
            (unat (Index (frame before)) + 1) mod unat (common_ObserversMaxCount C))
     \<and> (Index (frame before) = kInitialTimeFrameIndex \<longrightarrow> Index (frame after) = 0)
     \<and> Index (frame after) < common_ObserversMaxCount C
     \<and> OutgoingEventsTimeFrameEnd after =
         OutgoingEventsTimeFrameEnd before @ (if readys ! n then [frame after] else [])"
proof -
  have step: "after = processTick C (readys ! n) before"
    using assms(3) by (simp add: assms(4,5) ticks_take_Suc)
  have range: "Index (frame before) < common_ObserversMaxCount C
               \<or> Index (frame before) = kInitialTimeFrameIndex"
    unfolding assms(4) using assms(1,2) by (rule ticks_keep_range)
  show ?thesis
    unfolding step
    using processTick_below [of before C "readys ! n"]
      processTick_sentinel [of before C "readys ! n"]
      processTick_keeps_range [OF assms(1) range, of "readys ! n"]
      processTick_events [of C "readys ! n" before]
    by simp
qed


theorem ticks_advance_frame_by_one_witness:
  "syncWithOtherObservers_finish
      \<lparr>common_ObserversMaxCount = 1024, AverageBlockGenerationTimeRange = 60000000000\<rparr>
      5000000000 6000000000
      ((New None :: (unit, unit) Timer)\<lparr>IncomingResponsesTimeFrame :=
         [\<lparr>Request = (), FrameIndex = 1022, NanosecondsLeft = 1000000000, Received = 3000000000\<rparr>]\<rparr>)
     = Some ((New None)\<lparr>nextFrameTimestamp := 65000000000, isTickerRunning := True,
                         frame := \<lparr>Index = 1022, Conf = None\<rparr>\<rparr>)
   \<and> frame (ticks \<lparr>common_ObserversMaxCount = 1024, AverageBlockGenerationTimeRange = 60000000000\<rparr>
         [True]
         ((New None :: (unit, unit) Timer)\<lparr>nextFrameTimestamp := 65000000000, isTickerRunning := True,
                         frame := \<lparr>Index = 1022, Conf = None\<rparr>\<rparr>))
       = \<lparr>Index = 1023, Conf = None\<rparr>
   \<and> frame (ticks \<lparr>common_ObserversMaxCount = 1024, AverageBlockGenerationTimeRange = 60000000000\<rparr>
         [True, False]
         ((New None :: (unit, unit) Timer)\<lparr>nextFrameTimestamp := 65000000000, isTickerRunning := True,
                         frame := \<lparr>Index = 1022, Conf = None\<rparr>\<rparr>))
       = \<lparr>Index = 0, Conf = None\<rparr>
   \<and> unat (0 :: 16 word) = (unat (1023 :: 16 word) + 1) mod unat (1024 :: 16 word)"
proof -
  let ?C = "\<lparr>common_ObserversMaxCount = 1024, AverageBlockGenerationTimeRange = 60000000000\<rparr>"
  let ?t = "(New None :: (unit, unit) Timer)\<lparr>nextFrameTimestamp := 65000000000,
              isTickerRunning := True, frame := \<lparr>Index = 1022, Conf = None\<rparr>\<rparr>"
  have sync: "syncWithOtherObservers_finish ?C 5000000000 6000000000
      ((New None :: (unit, unit) Timer)\<lparr>IncomingResponsesTimeFrame :=
         [\<lparr>Request = (), FrameIndex = 1022, NanosecondsLeft = 1000000000, Received = 3000000000\<rparr>]\<rparr>)
     = Some ?t"
    by (simp add: syncWithOtherObservers_finish_def processMajorityOfFrameResponses_def New_def
        Let_def majority_step_def correctedNanosecondsLeft_def Sub_def
        processMajorityAndCalculateAverageNextFrameTTL_def processInternalEvent_def)
  have h1: "0 < common_ObserversMaxCount ?C" by simp
  have h2: "Index (frame ?t) < common_ObserversMaxCount ?C \<or> Index (frame ?t) = kInitialTimeFrameIndex"
    using syncWithOtherObservers_finish_index_below [OF h1 sync] by (rule disjI1)
  have h3: "1 < length [True, False, True]" by simp
  have b: "frame (ticks ?C (take 1 [True, False, True]) ?t) = \<lparr>Index = 1023, Conf = None\<rparr>"
    by (simp add: processTick_def New_def Let_def)
  have a: "frame (ticks ?C (take (Suc 1) [True, False, True]) ?t) = \<lparr>Index = 0, Conf = None\<rparr>"
    by (simp add: processTick_def New_def Let_def)
  from ticks_advance_frame_by_one [OF h1 h2 h3 refl refl] a b sync
  show ?thesis by simp
qed

text \<open>Claim C8 as stated fails for the emitted events: of three ticks from frame 1022, the
  second finding no receiver, the events emitted carry the indices 1023 and 1, and 1 is
  not 1023 plus one modulo 1024.\<close>

theorem ticks_emitted_indices_skip_counterexample:
  "map Index (OutgoingEventsTimeFrameEnd
     (ticks \<lparr>common_ObserversMaxCount = 1024, AverageBlockGenerationTimeRange = 60000000000\<rparr>
        [True, False, True]
        ((New None :: (unit, unit) Timer)\<lparr>nextFrameTimestamp := 65000000000, isTickerRunning := True,
                         frame := \<lparr>Index = 1022, Conf = None\<rparr>\<rparr>)))
     = [1023, 1]
   \<and> (1 :: 16 word) \<noteq> (1023 + 1) mod 1024"
  by (simp add: processTick_def New_def Let_def)

lemma processTimeFrameRequest_not_running_second_0:
  assumes "\<not> isTickerRunning t" and "Second (synchronisationDeadlineTimestamp t) = 0"
  shows "processTimeFrameRequest C now t request = (None, t)"
  using assms by (simp add: processTimeFrameRequest_def)

text \<open>Claim C4 (fails on the code). A timer that is not running and whose synchronisation
  is in progress, started at 12:00:40.5 UTC so that its deadline is 12:01:00.5, ignores
  a time frame request received one second later: \<open>processTimeFrameRequest\<close> returns nil
  and sends no response, although the outgoing channel is empty. The test
  \<open>synchronisationDeadlineTimestamp.Second() == 0\<close> reads the second within the minute
  of the deadline, which is 0 for this deadline as it is for the zero \<open>Time\<close>.\<close>

theorem processTimeFrameRequest_ignored_during_synchronisation:
  "syncWithOtherObservers_start 63687038440500000000 () (New None :: (unit, unit) Timer)
     = (New None)\<lparr>synchronisationDeadlineTimestamp := 63687038460500000000,
                   OutgoingRequestsTimeFrames := [()]\<rparr>
   \<and> processTimeFrameRequest
         \<lparr>common_ObserversMaxCount = 1024, AverageBlockGenerationTimeRange = 60000000000\<rparr>
         63687038441500000000
         ((New None :: (unit, unit) Timer)\<lparr>synchronisationDeadlineTimestamp := 63687038460500000000,
                   OutgoingRequestsTimeFrames := [()]\<rparr>) ()
     = (None, (New None)\<lparr>synchronisationDeadlineTimestamp := 63687038460500000000,
                   OutgoingRequestsTimeFrames := [()]\<rparr>)
   \<and> OutgoingResponsesTimeFrame
        ((New None :: (unit, unit) Timer)\<lparr>synchronisationDeadlineTimestamp := 63687038460500000000,
                   OutgoingRequestsTimeFrames := [()]\<rparr>) = []"
  by (simp add: processTimeFrameRequest_def syncWithOtherObservers_start_def New_def Second_def
      kSynchronisationTimoutSeconds_def)

section \<open>Properties of the claims codec\<close>

text \<open>Claim C5 (fails on the code). On the input whose declared count is 2 and which ends
  after the first size field, \<open>Claims.UnmarshalBinary\<close> panics: the slice expression
  \<open>data[offset : offset+4]\<close> for the second size field is out of range, and nothing
  recovers the panic. No error is returned.\<close>

theorem Claims_UnmarshalBinary_truncated_panics:
  "Claims_UnmarshalBinary E [2, 0, 20, 0, 0, 0] = Panic"
proof -
  let ?data = "[2, 0, 20, 0, 0, 0] :: bytes"
  have cnt: "UnmarshalUint16 [2, 0] = Inr 2"
    by (simp add: UnmarshalUint16_def)
  have first: "slice ?data 2 6 = Some [20, 0, 0, 0]"
    by (simp add: slice_def)
  have second: "slice ?data 6 10 = None"
    by (simp add: slice_def)
  have sz: "\<exists>v. UnmarshalUint32 [20, 0, 0, 0] = Inr v"
    by (simp add: UnmarshalUint32_def)
  have "read_sizes ?data (Suc (Suc 0)) 2 [] = Panic"
    using sz by (auto simp: first second Uint32ByteSize_def)
  then have rs: "read_sizes ?data 2 2 [] = Panic"
    by (subst numeral_2_eq_2)
  show ?thesis
    by (simp add: Claims_UnmarshalBinary_def slice_def cnt Uint16ByteSize_def rs)
qed

lemma unat_of_nat_32: "n < 2 ^ 32 \<Longrightarrow> unat (word_of_nat n :: 32 word) = n"
  by (simp add: unat_of_nat take_bit_nat_eq_self)

lemma unat_of_nat_16: "n < 2 ^ 16 \<Longrightarrow> unat (word_of_nat n :: 16 word) = n"
  by (simp add: unat_of_nat take_bit_nat_eq_self)

lemma unat_of_nat_8: "n < 256 \<Longrightarrow> unat (word_of_nat n :: 8 word) = n"
  by (simp add: unat_of_nat take_bit_nat_eq_self)

lemma Uint16_roundtrip: "UnmarshalUint16 (MarshalUint16 v) = Inr v"
proof -
  have "unat v < 2 ^ 16" using unsigned_less [of v] by simp
  then have "unat v div 256 < 256" by simp
  then show ?thesis
    by (simp add: UnmarshalUint16_def MarshalUint16_def unat_of_nat_8)
qed

lemma length_MarshalUint32: "length (MarshalUint32 v) = 4"
  by (simp add: MarshalUint32_def)

lemma length_MarshalUint16: "length (MarshalUint16 v) = 2"
  by (simp add: MarshalUint16_def)

lemma slice_middle:
  "slice (pre @ x @ post) (length pre) (length pre + length x) = Some x"
  by (simp add: slice_def)


lemma split4:
  fixes n :: nat
  shows "n mod 256 + 256 * (n div 256 mod 256) + 65536 * (n div 65536 mod 256)
         + 16777216 * (n div 16777216) = n"
proof -
  define a where "a = n div 256"
  define b where "b = a div 256"
  define c where "c = b div 256"
  have b': "n div 65536 = b" unfolding b_def a_def by (simp add: div_mult2_eq)
  have c': "n div 16777216 = c" unfolding c_def b_def a_def by (simp add: div_mult2_eq)
  have 1: "n = n mod 256 + 256 * a" unfolding a_def by simp
  have 2: "a = a mod 256 + 256 * b" unfolding b_def by simp
  have 3: "b = b mod 256 + 256 * c" unfolding c_def by simp
  have "n mod 256 + 256 * (a mod 256) + 65536 * (b mod 256) + 16777216 * c
        = n mod 256 + 256 * (a mod 256 + 256 * (b mod 256 + 256 * c))"
    by simp
  also have "\<dots> = n" using 1 2 3 by simp
  finally show ?thesis by (simp add: b' c' a_def [symmetric])
qed


lemma Uint32_roundtrip: "UnmarshalUint32 (MarshalUint32 v) = Inr v"
proof -
  have "unat v < 2 ^ 32" using unsigned_less [of v] by simp
  then have "unat v div 16777216 < 256" by simp
  then show ?thesis
    by (simp add: UnmarshalUint32_def MarshalUint32_def unat_of_nat_8 split4)
qed

lemma Claim_roundtrip:
  assumes FR: "fields_roundtrip E claim"
    and m: "Claim_MarshalBinary E claim = Inr data"
  shows "Claim_UnmarshalBinary E data = Inr claim \<and> TxIDBinarySize E \<le> length data"
proof -
  from m obtain tx mem txb mb where
    c: "TxUUID claim = Some tx" "Members claim = Some mem"
    and txb: "TxID_MarshalBinary E tx = Inr txb"
    and mb: "ClaimMembers_MarshalBinary E mem = Inr mb"
    and data: "data = txb @ mb"
    by (auto simp: Claim_MarshalBinary_def ChainByteSlices_def split: option.splits sum.splits)
  from FR c txb have t: "length txb = TxIDBinarySize E" "TxID_UnmarshalBinary E txb = Inr tx"
    by (auto simp: fields_roundtrip_def)
  from FR c mb have me: "ClaimMembersMinBinarySize E \<le> length mb"
    "ClaimMembers_UnmarshalBinary E mb = Inr mem"
    by (auto simp: fields_roundtrip_def)
  have "claim = \<lparr>TxUUID = Some tx, Members = Some mem\<rparr>" using c by simp
  then show ?thesis
    using t me by (simp add: Claim_UnmarshalBinary_def ClaimMinBinarySize_def data)
qed

lemma marshal_claims_result:
  assumes "marshal_claims E cs sizes claims = Inr (sz, cl)"
    and "\<forall>c\<in>set cs. \<forall>b. Claim_MarshalBinary E c = Inr b \<longrightarrow> b \<noteq> []"
  shows "\<exists>bs. list_all2 (\<lambda>c b. Claim_MarshalBinary E c = Inr b) cs bs
              \<and> sz = sizes @ concat (map (\<lambda>b. MarshalUint32 (word_of_nat (length b))) bs)
              \<and> cl = claims @ bs"
  using assms
proof (induction cs arbitrary: sizes claims)
  case Nil
  then show ?case by simp
next
  case (Cons c cs)
  from Cons.prems(1) obtain b where b: "Claim_MarshalBinary E c = Inr b"
    by (auto split: sum.splits)
  with Cons.prems(2) have ne: "b \<noteq> []" by simp
  with Cons.prems(1) b have
    "marshal_claims E cs (sizes @ MarshalUint32 (word_of_nat (length b))) (claims @ [b]) = Inr (sz, cl)"
    by simp
  from Cons.IH [OF this] Cons.prems(2) obtain bs where
    "list_all2 (\<lambda>c b. Claim_MarshalBinary E c = Inr b) cs bs"
    "sz = (sizes @ MarshalUint32 (word_of_nat (length b)))
            @ concat (map (\<lambda>b. MarshalUint32 (word_of_nat (length b))) bs)"
    "cl = (claims @ [b]) @ bs"
    by auto
  then show ?case using b by (intro exI [of _ "b # bs"]) simp
qed

lemma read_sizes_result:
  assumes "data = pre @ concat (map MarshalUint32 szs) @ post"
    and "length pre + 4 * length szs < 2 ^ 32"
  shows "read_sizes data (length szs) (word_of_nat (length pre)) acc =
           Returned (acc @ szs, word_of_nat (length pre + 4 * length szs))"
  using assms
proof (induction szs arbitrary: pre acc)
  case Nil
  then show ?case by simp
next
  case (Cons s szs)
  let ?pre' = "pre @ MarshalUint32 s"
  have d: "data = ?pre' @ concat (map MarshalUint32 szs) @ post"
    using Cons.prems(1) by simp
  have l: "length ?pre' + 4 * length szs < 2 ^ 32"
    using Cons.prems(2) by (simp add: length_MarshalUint32)
  have off: "word_of_nat (length pre) + word_of_nat Uint32ByteSize
               = (word_of_nat (length ?pre') :: 32 word)"
    by (simp add: Uint32ByteSize_def length_MarshalUint32)
  have u1: "unat (word_of_nat (length pre) :: 32 word) = length pre"
    using Cons.prems(2) by (intro unat_of_nat_32) simp
  have u2: "unat (word_of_nat (length ?pre') :: 32 word) = length pre + length (MarshalUint32 s)"
    using Cons.prems(2) by (subst unat_of_nat_32) (simp_all add: length_MarshalUint32)
  have sl: "slice data (length pre) (length pre + length (MarshalUint32 s)) = Some (MarshalUint32 s)"
    unfolding Cons.prems(1) using slice_middle [of pre "MarshalUint32 s"] by simp
  have "read_sizes data (Suc (length szs)) (word_of_nat (length pre)) acc =
        read_sizes data (length szs) (word_of_nat (length ?pre')) (acc @ [s])"
    by (simp only: read_sizes.simps off u1 u2 sl Uint32_roundtrip option.case sum.case)
  also have "\<dots> = Returned ((acc @ [s]) @ szs, word_of_nat (length ?pre' + 4 * length szs))"
    using d l by (rule Cons.IH)
  finally show ?case by (simp add: length_MarshalUint32)
qed

lemma read_claims_result:
  assumes "data = pre @ concat bs @ post"
    and "list_all2 (\<lambda>b c. Claim_UnmarshalBinary E b = Inr c) bs cs"
    and "length pre + length (concat bs) < 2 ^ 32"
  shows "read_claims E data (map (\<lambda>b. word_of_nat (length b)) bs) (word_of_nat (length pre)) acc =
           Returned (acc @ cs)"
  using assms
proof (induction bs arbitrary: pre acc cs)
  case Nil
  then show ?case by simp
next
  case (Cons b bs)
  from Cons.prems(2) obtain c cs' where cs: "cs = c # cs'"
    and c: "Claim_UnmarshalBinary E b = Inr c"
    and rest: "list_all2 (\<lambda>b c. Claim_UnmarshalBinary E b = Inr c) bs cs'"
    by (auto simp: list_all2_Cons1)
  let ?pre' = "pre @ b"
  have d: "data = ?pre' @ concat bs @ post"
    using Cons.prems(1) by simp
  have l: "length ?pre' + length (concat bs) < 2 ^ 32"
    using Cons.prems(3) by simp
  have off: "word_of_nat (length pre) + word_of_nat (length b)
               = (word_of_nat (length ?pre') :: 32 word)"
    by simp
  have u1: "unat (word_of_nat (length pre) :: 32 word) = length pre"
    using Cons.prems(3) by (intro unat_of_nat_32) simp
  have u2: "unat (word_of_nat (length ?pre') :: 32 word) = length pre + length b"
    using Cons.prems(3) by (subst unat_of_nat_32) simp_all
  have sl: "slice data (length pre) (length pre + length b) = Some b"
    unfolding Cons.prems(1) using slice_middle [of pre b] by simp
  have "read_claims E data (map (\<lambda>b. word_of_nat (length b)) (b # bs)) (word_of_nat (length pre)) acc =
        read_claims E data (map (\<lambda>b. word_of_nat (length b)) bs) (word_of_nat (length ?pre')) (acc @ [c])"
    by (simp only: list.map read_claims.simps off u1 u2 sl c option.case sum.case)
  also have "\<dots> = Returned ((acc @ [c]) @ cs')"
    using d rest l by (rule Cons.IH)
  finally show ?case by (simp add: cs)
qed

lemma Claims_roundtrip:
  assumes FR: "\<forall>x\<in>set (At c). fields_roundtrip E x"
    and pos: "0 < TxIDBinarySize E"
    and cnt: "length (At c) \<le> ClaimsMaxCount"
    and m: "Claims_MarshalBinary E c = Inr data"
    and len: "length data < 2 ^ 32"
  shows "Claims_UnmarshalBinary E data = Returned c"
proof -
  from m obtain sz cl where mc: "marshal_claims E (At c) [] [] = Inr (sz, cl)"
    and data: "data = MarshalUint16 (Count c) @ sz @ concat cl"
    by (auto simp: Claims_MarshalBinary_def ChainByteSlices_def split: sum.splits)
  have ne: "\<forall>x\<in>set (At c). \<forall>b. Claim_MarshalBinary E x = Inr b \<longrightarrow> b \<noteq> []"
    using Claim_roundtrip FR pos by fastforce
  from marshal_claims_result [OF mc ne] obtain bs where
    bs: "list_all2 (\<lambda>c b. Claim_MarshalBinary E c = Inr b) (At c) bs"
    and sz: "sz = concat (map (\<lambda>b. MarshalUint32 (word_of_nat (length b))) bs)"
    and cl: "cl = bs"
    by auto
  let ?szs = "map (\<lambda>b. word_of_nat (length b) :: 32 word) bs"
  have sz': "sz = concat (map MarshalUint32 ?szs)"
    by (simp add: sz comp_def)
  have lsz: "length sz = 4 * length bs"
    unfolding sz by (induction bs) (simp_all add: length_MarshalUint32)
  have n: "length bs = length (At c)"
    using bs by (simp add: list_all2_lengthD)
  have un: "unat (Count c) = length (At c)"
    unfolding Count_def using cnt by (intro unat_of_nat_16) (simp add: ClaimsMaxCount_def)
  have unm: "list_all2 (\<lambda>b c. Claim_UnmarshalBinary E b = Inr c) bs (At c)"
  proof (rule list_all2_all_nthI)
    show "length bs = length (At c)" by (rule n)
  next
    fix i assume "i < length bs"
    then have i: "i < length (At c)" by (simp add: n)
    then have "fields_roundtrip E (At c ! i)" using FR by simp
    moreover have "Claim_MarshalBinary E (At c ! i) = Inr (bs ! i)"
      using bs i by (rule list_all2_nthD)
    ultimately show "Claim_UnmarshalBinary E (bs ! i) = Inr (At c ! i)"
      using Claim_roundtrip by blast
  qed
  have hd: "slice data 0 Uint16ByteSize = Some (MarshalUint16 (Count c))"
    unfolding data by (simp add: slice_def length_MarshalUint16 Uint16ByteSize_def)
  have c_eq: "c = \<lparr>At = At c\<rparr>" by simp
  show ?thesis
  proof (cases "Count c = 0")
    case True
    then have "At c = []" using un by simp
    then show ?thesis
      using True c_eq by (simp add: Claims_UnmarshalBinary_def hd Uint16_roundtrip)
  next
    case False
    have d1: "data = MarshalUint16 (Count c) @ concat (map MarshalUint32 ?szs) @ concat bs"
      by (simp add: data sz' cl)
    have l1: "length (MarshalUint16 (Count c)) + 4 * length ?szs < 2 ^ 32"
      using len by (simp add: data lsz length_MarshalUint16)
    have rs: "read_sizes data (unat (Count c)) (word_of_nat Uint16ByteSize) [] =
                Returned (?szs, word_of_nat (length (MarshalUint16 (Count c) @ sz)))"
      using read_sizes_result [OF d1 l1, of "[]"]
      by (simp add: un n length_MarshalUint16 Uint16ByteSize_def lsz)
    have d2: "data = (MarshalUint16 (Count c) @ sz) @ concat bs @ []"
      by (simp add: data cl)
    have l2: "length (MarshalUint16 (Count c) @ sz) + length (concat bs) < 2 ^ 32"
      using len by (simp add: data cl)
    have rc: "read_claims E data ?szs (word_of_nat (length (MarshalUint16 (Count c) @ sz))) [] =
                Returned (At c)"
      using read_claims_result [OF d2 unm l2, of "[]"] by simp
    show ?thesis
      using False c_eq
      by (simp add: Claims_UnmarshalBinary_def hd Uint16_roundtrip rs rc del: length_append)
  qed
qed

text \<open>Claim C6 (as amended). Let the codecs of \<open>TxID\<close> and \<open>ClaimMembers\<close> (not part of the
  sources) round-trip on the fields of the claims at hand, a marshalled \<open>TxID\<close> having
  \<open>TxIDBinarySize\<close> bytes (more than none) and marshalled members at least
  \<open>ClaimMembersMinBinarySize\<close> bytes. Then a claim that marshals (so its \<open>TxID\<close> and
  members are not nil) is reconstructed by \<open>Claim.UnmarshalBinary\<close> from its marshalled
  bytes, and a batch of at most \<open>ClaimsMaxCount\<close> claims that marshals to fewer than
  \<open>2^32\<close> bytes is reconstructed by \<open>Claims.UnmarshalBinary\<close>.\<close>

theorem Claim_and_Claims_roundtrip:
  assumes "fields_roundtrip E claim"
    and "Claim_MarshalBinary E claim = Inr claimData"
    and "\<forall>x\<in>set (At c). fields_roundtrip E x"
    and "0 < TxIDBinarySize E"
    and "length (At c) \<le> ClaimsMaxCount"
    and "Claims_MarshalBinary E c = Inr data"
    and "length data < 2 ^ 32"
  shows "Claim_UnmarshalBinary E claimData = Inr claim
         \<and> Claims_UnmarshalBinary E data = Returned c"
  using Claim_roundtrip [OF assms(1,2)] Claims_roundtrip [OF assms(3,4,5,6,7)]
  by simp

theorem Claim_and_Claims_roundtrip_witness:
  "Claim_MarshalBinary example_env \<lparr>TxUUID = Some [1, 1, 1, 1, 1, 1, 1, 1, 1, 1, 1, 1, 1, 1, 1, 1], Members = Some [5]\<rparr> = Inr ([1, 1, 1, 1, 1, 1, 1, 1, 1, 1, 1, 1, 1, 1, 1, 1] @ [5])
   \<and> Claim_UnmarshalBinary example_env ([1, 1, 1, 1, 1, 1, 1, 1, 1, 1, 1, 1, 1, 1, 1, 1] @ [5]) = Inr \<lparr>TxUUID = Some [1, 1, 1, 1, 1, 1, 1, 1, 1, 1, 1, 1, 1, 1, 1, 1], Members = Some [5]\<rparr>
   \<and> Claims_MarshalBinary example_env
        \<lparr>At = [\<lparr>TxUUID = Some [1, 1, 1, 1, 1, 1, 1, 1, 1, 1, 1, 1, 1, 1, 1, 1], Members = Some [5]\<rparr>,
                \<lparr>TxUUID = Some [2, 2, 2, 2, 2, 2, 2, 2, 2, 2, 2, 2, 2, 2, 2, 2], Members = Some [6, 7]\<rparr>]\<rparr>
       = Inr ([2, 0, 17, 0, 0, 0, 18, 0, 0, 0] @ [1, 1, 1, 1, 1, 1, 1, 1, 1, 1, 1, 1, 1, 1, 1, 1] @ [5] @ [2, 2, 2, 2, 2, 2, 2, 2, 2, 2, 2, 2, 2, 2, 2, 2] @ [6, 7])
   \<and> Claims_UnmarshalBinary example_env ([2, 0, 17, 0, 0, 0, 18, 0, 0, 0] @ [1, 1, 1, 1, 1, 1, 1, 1, 1, 1, 1, 1, 1, 1, 1, 1] @ [5] @ [2, 2, 2, 2, 2, 2, 2, 2, 2, 2, 2, 2, 2, 2, 2, 2] @ [6, 7])
       = Returned \<lparr>At = [\<lparr>TxUUID = Some [1, 1, 1, 1, 1, 1, 1, 1, 1, 1, 1, 1, 1, 1, 1, 1], Members = Some [5]\<rparr>,
                          \<lparr>TxUUID = Some [2, 2, 2, 2, 2, 2, 2, 2, 2, 2, 2, 2, 2, 2, 2, 2], Members = Some [6, 7]\<rparr>]\<rparr>"
proof -
  let ?c1 = "\<lparr>TxUUID = Some [1, 1, 1, 1, 1, 1, 1, 1, 1, 1, 1, 1, 1, 1, 1, 1], Members = Some [5 :: byte]\<rparr>"
  let ?c2 = "\<lparr>TxUUID = Some [2, 2, 2, 2, 2, 2, 2, 2, 2, 2, 2, 2, 2, 2, 2, 2], Members = Some [6, 7 :: byte]\<rparr>"
  let ?d = "[2, 0, 17, 0, 0, 0, 18, 0, 0, 0] @ [1, 1, 1, 1, 1, 1, 1, 1, 1, 1, 1, 1, 1, 1, 1, 1] @ [5] @ [2, 2, 2, 2, 2, 2, 2, 2, 2, 2, 2, 2, 2, 2, 2, 2] @ [6, 7 :: byte]"
  have h1: "fields_roundtrip example_env ?c1"
    by (auto simp: fields_roundtrip_def example_env_def)
  have f2: "fields_roundtrip example_env ?c2"
    by (auto simp: fields_roundtrip_def example_env_def)
  have h2: "Claim_MarshalBinary example_env ?c1 = Inr ([1, 1, 1, 1, 1, 1, 1, 1, 1, 1, 1, 1, 1, 1, 1, 1] @ [5])"
    by (simp add: Claim_MarshalBinary_def example_env_def ChainByteSlices_def)
  have m2: "Claim_MarshalBinary example_env ?c2 = Inr ([2, 2, 2, 2, 2, 2, 2, 2, 2, 2, 2, 2, 2, 2, 2, 2] @ [6, 7])"
    by (simp add: Claim_MarshalBinary_def example_env_def ChainByteSlices_def)
  have h3: "\<forall>x\<in>set (At \<lparr>At = [?c1, ?c2]\<rparr>). fields_roundtrip example_env x"
    using h1 f2 by simp
  have h4: "0 < TxIDBinarySize example_env"
    by (simp add: example_env_def)
  have h5: "length (At \<lparr>At = [?c1, ?c2]\<rparr>) \<le> ClaimsMaxCount"
    by (simp add: ClaimsMaxCount_def)
  have h6: "Claims_MarshalBinary example_env \<lparr>At = [?c1, ?c2]\<rparr> = Inr ?d"
    by (simp add: Claims_MarshalBinary_def h2 m2 Count_def MarshalUint16_def MarshalUint32_def
        ChainByteSlices_def)
  have h7: "length ?d < 2 ^ 32"
    by simp
  from Claim_and_Claims_roundtrip [OF h1 h2 h3 h4 h5 h6 h7] h2 h6
  show ?thesis by simp
qed

text \<open>Claim C6 as stated fails for a batch of \<open>2^32\<close> bytes or more. A batch of one claim
  whose members marshal to \<open>2^32 - 16\<close> bytes: the claim has \<open>2^32\<close> bytes, its size field,
  a \<open>uint32\<close>, is written as 0, and \<open>Claims.UnmarshalBinary\<close> hands an empty slice to
  \<open>Claim.UnmarshalBinary\<close>, which returns \<open>InvalidDataFormat\<close>.\<close>

theorem Claims_roundtrip_uint32_counterexample:
  "fields_roundtrip example_env \<lparr>TxUUID = Some [1, 1, 1, 1, 1, 1, 1, 1, 1, 1, 1, 1, 1, 1, 1, 1], Members = Some (replicate 4294967280 0)\<rparr>
   \<and> length (At \<lparr>At = [\<lparr>TxUUID = Some [1, 1, 1, 1, 1, 1, 1, 1, 1, 1, 1, 1, 1, 1, 1, 1], Members = Some (replicate 4294967280 0)\<rparr>]\<rparr>)
       \<le> ClaimsMaxCount
   \<and> Claims_MarshalBinary example_env
        \<lparr>At = [\<lparr>TxUUID = Some [1, 1, 1, 1, 1, 1, 1, 1, 1, 1, 1, 1, 1, 1, 1, 1], Members = Some (replicate 4294967280 0)\<rparr>]\<rparr>
       = Inr ([1, 0, 0, 0, 0, 0] @ [1, 1, 1, 1, 1, 1, 1, 1, 1, 1, 1, 1, 1, 1, 1, 1] @ replicate 4294967280 0)
   \<and> Claims_UnmarshalBinary example_env ([1, 0, 0, 0, 0, 0] @ [1, 1, 1, 1, 1, 1, 1, 1, 1, 1, 1, 1, 1, 1, 1, 1] @ replicate 4294967280 0)
       = Failed InvalidDataFormat"
proof -
  let ?m = "replicate 4294967280 (0 :: byte)"
  let ?c = "\<lparr>TxUUID = Some [1, 1, 1, 1, 1, 1, 1, 1, 1, 1, 1, 1, 1, 1, 1, 1], Members = Some ?m\<rparr>"
  let ?d = "[1, 0, 0, 0, 0, 0] @ [1, 1, 1, 1, 1, 1, 1, 1, 1, 1, 1, 1, 1, 1, 1, 1] @ ?m"
  have fr: "fields_roundtrip example_env ?c"
    by (auto simp: fields_roundtrip_def example_env_def Suc_le_eq)
  have cnt: "length (At \<lparr>At = [?c]\<rparr>) \<le> ClaimsMaxCount"
    by (simp add: ClaimsMaxCount_def)
  have mc: "Claim_MarshalBinary example_env ?c = Inr ([1, 1, 1, 1, 1, 1, 1, 1, 1, 1, 1, 1, 1, 1, 1, 1] @ ?m)"
    by (simp add: Claim_MarshalBinary_def example_env_def ChainByteSlices_def)
  have sz: "MarshalUint32 (word_of_nat (length ([1, 1, 1, 1, 1, 1, 1, 1, 1, 1, 1, 1, 1, 1, 1, 1] @ ?m))) = [0, 0, 0, 0]"
    by (simp add: MarshalUint32_def)
  have m: "Claims_MarshalBinary example_env \<lparr>At = [?c]\<rparr> = Inr ?d"
    by (simp add: Claims_MarshalBinary_def mc sz Count_def MarshalUint16_def ChainByteSlices_def
        del: length_append append.simps)
  have hd: "slice ?d 0 2 = Some [1, 0]"
    by (simp add: slice_def)
  have cnt1: "UnmarshalUint16 [1, 0] = Inr 1"
    by (simp add: UnmarshalUint16_def)
  have f1: "slice ?d 2 6 = Some [0, 0, 0, 0]"
    by (simp add: slice_def)
  have s0: "UnmarshalUint32 [0, 0, 0, 0] = Inr 0"
    by (simp add: UnmarshalUint32_def)
  have rs: "read_sizes ?d (Suc 0) 2 [] = Returned ([0], 6)"
    by (simp add: f1 s0 Uint32ByteSize_def del: append.simps)
  have b: "slice ?d 6 6 = Some []"
    by (simp add: slice_def)
  have cu: "Claim_UnmarshalBinary example_env [] = Inl InvalidDataFormat"
    by (simp add: Claim_UnmarshalBinary_def ClaimMinBinarySize_def example_env_def)
  have rc: "read_claims example_env ?d [0] 6 [] = Failed InvalidDataFormat"
    by (simp add: b cu del: append.simps)
  have u: "Claims_UnmarshalBinary example_env ?d = Failed InvalidDataFormat"
    unfolding Claims_UnmarshalBinary_def Uint16ByteSize_def
    by (simp add: hd cnt1 rs rc del: append.simps read_sizes.simps read_claims.simps)
  from fr cnt m u show ?thesis by simp
qed

lemma bytes_Compare_less: "bytes_Compare a b = - 1 \<longleftrightarrow> a < b"
  by (induction a b rule: bytes_Compare.induct) auto

lemma bytes_Compare_le: "bytes_Compare a b \<le> 0 \<longleftrightarrow> a \<le> b"
  by (induction a b rule: bytes_Compare.induct) auto

lemma insert_left_sorted:
  fixes key :: "'a \<Rightarrow> 'k::linorder"
  assumes "\<forall>a\<in>set (x # ys). \<forall>b\<in>set (x # ys). less_fn a b = Inr (key a < key b)"
    and "sorted_wrt (\<lambda>a b. key b \<le> key a) ys"
  shows "\<exists>r. insert_left less_fn x ys = Inr r \<and> mset r = mset (x # ys)
             \<and> sorted_wrt (\<lambda>a b. key b \<le> key a) r"
  using assms
proof (induction ys)
  case Nil
  then show ?case by simp
next
  case (Cons y ys)
  have l: "less_fn x y = Inr (key x < key y)" using Cons.prems(1) by simp
  show ?case
  proof (cases "key x < key y")
    case True
    have "\<forall>a\<in>set (x # ys). \<forall>b\<in>set (x # ys). less_fn a b = Inr (key a < key b)"
      using Cons.prems(1) by simp
    moreover have "sorted_wrt (\<lambda>a b. key b \<le> key a) ys" using Cons.prems(2) by simp
    ultimately obtain r where r: "insert_left less_fn x ys = Inr r" "mset r = mset (x # ys)"
      "sorted_wrt (\<lambda>a b. key b \<le> key a) r"
      using Cons.IH by blast
    from r(2) have "set r = set (x # ys)"
      by (rule mset_eq_setD)
    then have "set r = insert x (set ys)" by simp
    then have "\<forall>z\<in>set r. key z \<le> key y"
      using True Cons.prems(2) by auto
    then show ?thesis using l True r by simp
  next
    case False
    then have "key y \<le> key x" by simp
    moreover from this have "\<forall>z\<in>set ys. key z \<le> key x"
      using Cons.prems(2) by auto
    ultimately show ?thesis using l False Cons.prems(2) by simp
  qed
qed

lemma sort_Slice_sorted:
  fixes key :: "'a \<Rightarrow> 'k::linorder"
  assumes "\<forall>a\<in>set (prefix @ xs). \<forall>b\<in>set (prefix @ xs). less_fn a b = Inr (key a < key b)"
    and "sorted_wrt (\<lambda>a b. key b \<le> key a) prefix"
  shows "\<exists>r. sort_Slice less_fn prefix xs = Inr r \<and> mset r = mset (prefix @ xs)
             \<and> sorted_wrt (\<lambda>a b. key a \<le> key b) r"
  using assms
proof (induction xs arbitrary: prefix)
  case Nil
  then show ?case by (simp add: sorted_wrt_rev)
next
  case (Cons x xs)
  have "\<forall>a\<in>set (x # prefix). \<forall>b\<in>set (x # prefix). less_fn a b = Inr (key a < key b)"
    using Cons.prems(1) by simp
  from insert_left_sorted [OF this Cons.prems(2)]
  obtain p where p: "insert_left less_fn x prefix = Inr p" "mset p = mset (x # prefix)"
    "sorted_wrt (\<lambda>a b. key b \<le> key a) p"
    by blast
  from p(2) have "set p = set (x # prefix)"
    by (rule mset_eq_setD)
  then have sp: "set p = insert x (set prefix)" by simp
  have "\<forall>a\<in>set (p @ xs). \<forall>b\<in>set (p @ xs). less_fn a b = Inr (key a < key b)"
    using Cons.prems(1) by (simp add: sp)
  from Cons.IH [OF this p(3)]
  obtain r where "sort_Slice less_fn p xs = Inr r" "mset r = mset (p @ xs)"
    "sorted_wrt (\<lambda>a b. key a \<le> key b) r"
    by blast
  then show ?case using p by simp
qed

text \<open>Claim C9. For a batch whose claims all marshal, \<open>Claims.Sort\<close> returns without error
  and leaves in \<open>At\<close> a permutation of the claims in which, for all positions \<open>i < j\<close>,
  the marshalled bytes of claim \<open>i\<close> are lexicographically less than or equal to those of
  claim \<open>j\<close> (\<open>bytes.Compare\<close> gives -1 or 0).\<close>

theorem Claims_Sort_sorted:
  assumes "\<forall>c\<in>set (At cs). \<exists>b. Claim_MarshalBinary E c = Inr b"
  shows "\<exists>cs'. Claims_Sort E cs = Inr cs' \<and> mset (At cs') = mset (At cs)
     \<and> (\<forall>i j. i < j \<and> j < length (At cs') \<longrightarrow>
          (\<exists>a b. Claim_MarshalBinary E (At cs' ! i) = Inr a
                \<and> Claim_MarshalBinary E (At cs' ! j) = Inr b
                \<and> a \<le> b \<and> bytes_Compare a b \<le> 0))"
proof -
  define key where "key = (\<lambda>c. projr (Claim_MarshalBinary E c))"
  have k: "\<And>c. c \<in> set (At cs) \<Longrightarrow> Claim_MarshalBinary E c = Inr (key c)"
    using assms by (auto simp: key_def)
  have "\<forall>a\<in>set ([] @ At cs). \<forall>b\<in>set ([] @ At cs). sort_less E a b = Inr (key a < key b)"
    by (simp add: sort_less_def k bytes_Compare_less)
  moreover have "sorted_wrt (\<lambda>a b. key b \<le> key a) []" by simp
  ultimately obtain r where r: "sort_Slice (sort_less E) [] (At cs) = Inr r"
    "mset r = mset ([] @ At cs)" "sorted_wrt (\<lambda>a b. key a \<le> key b) r"
    using sort_Slice_sorted [of "[]" "At cs" "sort_less E" key] by blast
  have "set r = set ([] @ At cs)" using r(2) by (rule mset_eq_setD)
  then have sr: "set r = set (At cs)" by simp
  have "\<forall>i j. i < j \<and> j < length r \<longrightarrow>
          (\<exists>a b. Claim_MarshalBinary E (r ! i) = Inr a \<and> Claim_MarshalBinary E (r ! j) = Inr b
                \<and> a \<le> b \<and> bytes_Compare a b \<le> 0)"
  proof (intro allI impI)
    fix i j assume ij: "i < j \<and> j < length r"
    then have "key (r ! i) \<le> key (r ! j)"
      using r(3) by (simp add: sorted_wrt_iff_nth_less)
    moreover have "i < length r" "j < length r" using ij by simp_all
    then have "r ! i \<in> set r" "r ! j \<in> set r" by simp_all
    then have "r ! i \<in> set (At cs)" "r ! j \<in> set (At cs)" by (simp_all add: sr)
    ultimately show "\<exists>a b. Claim_MarshalBinary E (r ! i) = Inr a \<and> Claim_MarshalBinary E (r ! j) = Inr b
                \<and> a \<le> b \<and> bytes_Compare a b \<le> 0"
      using k by (simp add: bytes_Compare_le)
  qed
  then show ?thesis using r by (simp add: Claims_Sort_def)
qed

theorem Claims_Sort_sorted_witness:
  "\<exists>cs'. Claims_Sort example_env
            \<lparr>At = [\<lparr>TxUUID = Some [2, 2, 2, 2, 2, 2, 2, 2, 2, 2, 2, 2, 2, 2, 2, 2], Members = Some [6, 7]\<rparr>,
                    \<lparr>TxUUID = Some [1, 1, 1, 1, 1, 1, 1, 1, 1, 1, 1, 1, 1, 1, 1, 1], Members = Some [5, 9]\<rparr>,
                    \<lparr>TxUUID = Some [1, 1, 1, 1, 1, 1, 1, 1, 1, 1, 1, 1, 1, 1, 1, 1], Members = Some [5]\<rparr>]\<rparr> = Inr cs'
     \<and> At cs' = [\<lparr>TxUUID = Some [1, 1, 1, 1, 1, 1, 1, 1, 1, 1, 1, 1, 1, 1, 1, 1], Members = Some [5]\<rparr>,
                 \<lparr>TxUUID = Some [1, 1, 1, 1, 1, 1, 1, 1, 1, 1, 1, 1, 1, 1, 1, 1], Members = Some [5, 9]\<rparr>,
                 \<lparr>TxUUID = Some [2, 2, 2, 2, 2, 2, 2, 2, 2, 2, 2, 2, 2, 2, 2, 2], Members = Some [6, 7]\<rparr>]"
proof -
  let ?a = "\<lparr>TxUUID = Some [2, 2, 2, 2, 2, 2, 2, 2, 2, 2, 2, 2, 2, 2, 2, 2], Members = Some [6, 7 :: byte]\<rparr>"
  let ?b = "\<lparr>TxUUID = Some [1, 1, 1, 1, 1, 1, 1, 1, 1, 1, 1, 1, 1, 1, 1, 1], Members = Some [5, 9 :: byte]\<rparr>"
  let ?c = "\<lparr>TxUUID = Some [1, 1, 1, 1, 1, 1, 1, 1, 1, 1, 1, 1, 1, 1, 1, 1], Members = Some [5 :: byte]\<rparr>"
  have ma: "Claim_MarshalBinary example_env ?a = Inr ([2, 2, 2, 2, 2, 2, 2, 2, 2, 2, 2, 2, 2, 2, 2, 2] @ [6, 7])"
    by (simp add: Claim_MarshalBinary_def example_env_def ChainByteSlices_def)
  have mb: "Claim_MarshalBinary example_env ?b = Inr ([1, 1, 1, 1, 1, 1, 1, 1, 1, 1, 1, 1, 1, 1, 1, 1] @ [5, 9])"
    by (simp add: Claim_MarshalBinary_def example_env_def ChainByteSlices_def)
  have mc: "Claim_MarshalBinary example_env ?c = Inr ([1, 1, 1, 1, 1, 1, 1, 1, 1, 1, 1, 1, 1, 1, 1, 1] @ [5])"
    by (simp add: Claim_MarshalBinary_def example_env_def ChainByteSlices_def)
  have h: "\<forall>c\<in>set (At \<lparr>At = [?a, ?b, ?c]\<rparr>). \<exists>b. Claim_MarshalBinary example_env c = Inr b"
    by (simp add: ma mb mc)
  have run: "Claims_Sort example_env \<lparr>At = [?a, ?b, ?c]\<rparr> = Inr \<lparr>At = [?c, ?b, ?a]\<rparr>"
    by (simp add: Claims_Sort_def sort_less_def ma mb mc)
  from Claims_Sort_sorted [OF h] run show ?thesis
    by simp
qed

end
